theory Spec2Isabelle
  imports Complex_Main "HOL-Library.Product_Lexorder" "HOL-Library.Multiset"
begin

section \<open>Data model\<close>

text \<open>
  The OCR engine hands over a list of detections \<open>(box, text, confidence)\<close>.  A box is a
  sequence of four corner points \<open>box[0] .. box[3]\<close>, each point a pair \<open>[x, y]\<close>; the code
  reads \<open>box[i][0]\<close> (the x coordinate) and \<open>box[i][1]\<close> (the y coordinate).  The
  grouping code is modelled on integer pixel coordinates, as are thresholds and mouse
  positions; the click handler, which converts every coordinate it reads with \<open>int()\<close>,
  is modelled on boxes with real coordinates (section on the click handler).  The
  confidence is never read by the grouping code (\<open>result[:2]\<close> drops it), so its type is
  left open.  A group is the two-element list \<open>[box, text]\<close>.
\<close>

type_synonym point = "int \<times> int"

datatype box = Box (c0: point) (c1: point) (c2: point) (c3: point)

type_synonym 'c detection = "box \<times> string \<times> 'c"

type_synonym group = "box \<times> string"

datatype py_error = IndexError

section \<open>Box geometry\<close>

text \<open>\<open>is_nearby(box1, box2, x_threshold, y_threshold, font_threshold)\<close>\<close>

definition is_nearby :: "box \<Rightarrow> box \<Rightarrow> int \<Rightarrow> int \<Rightarrow> int \<Rightarrow> bool" where
  "is_nearby box1 box2 x_threshold y_threshold font_threshold =
     (let x_dist = \<bar>fst (c2 box1) - fst (c0 box2)\<bar>;
          y_dist = \<bar>snd (c0 box1) - snd (c0 box2)\<bar>;
          height1 = snd (c2 box1) - snd (c0 box1);
          height2 = snd (c2 box2) - snd (c0 box2);
          font_size_similar = (\<bar>height1 - height2\<bar> < font_threshold)
      in x_dist < x_threshold \<and> y_dist < y_threshold \<and> font_size_similar)"

text \<open>\<open>merge_boxes(box1, box2)\<close>\<close>

definition merge_boxes :: "box \<Rightarrow> box \<Rightarrow> box" where
  "merge_boxes box1 box2 =
     (let top_left = (min (fst (c0 box1)) (fst (c0 box2)), min (snd (c0 box1)) (snd (c0 box2)));
          bottom_right = (max (fst (c2 box1)) (fst (c2 box2)), max (snd (c2 box1)) (snd (c2 box2)))
      in Box top_left (fst bottom_right, snd top_left) bottom_right (fst top_left, snd bottom_right))"

text \<open>\<open>is_nearby_parag(box1, box2, parag_y_threshold, parag_x_threshold)\<close>\<close>

definition is_nearby_parag :: "box \<Rightarrow> box \<Rightarrow> int \<Rightarrow> int \<Rightarrow> bool" where
  "is_nearby_parag box1 box2 parag_y_threshold parag_x_threshold =
     (let parag_dist_y = \<bar>snd (c3 box1) - snd (c0 box2)\<bar>;
          parag_dist_x = \<bar>fst (c0 box1) - fst (c0 box2)\<bar>
      in parag_dist_y < parag_y_threshold \<and> parag_dist_x < parag_x_threshold)"

section \<open>Line grouping\<close>

text \<open>
  The sort key of \<open>results.sort(key = lambda x: (x[0][0][1], x[0][0][0]))\<close>: the pair
  (top-left y, top-left x), compared lexicographically as Python compares tuples.
  Python's \<open>list.sort\<close> is stable, and so is \<^const>\<open>sort_key\<close>.
\<close>

definition sort_key_of :: "'c detection \<Rightarrow> int \<times> int" where
  "sort_key_of x = (snd (c0 (fst x)), fst (c0 (fst x)))"

text \<open>
  The body of the \<open>for result in results\<close> loop, with the list \<open>grouped_texts\<close> built so
  far as accumulator.  \<open>grouped_texts[-1]\<close> is the last element; the text is extended
  first and the box replaced second, both from the values the last group had before.
\<close>

fun group_loop :: "group list \<Rightarrow> 'c detection list \<Rightarrow> int \<Rightarrow> int \<Rightarrow> int \<Rightarrow> group list" where
  "group_loop grouped_texts [] x_threshold y_threshold font_threshold = grouped_texts"
| "group_loop grouped_texts (result # rest) x_threshold y_threshold font_threshold =
     (let box = fst result; text = fst (snd result) in
      if grouped_texts \<noteq> [] \<and>
         is_nearby (fst (last grouped_texts)) box x_threshold y_threshold font_threshold
      then group_loop
             (butlast grouped_texts @
                [(merge_boxes (fst (last grouped_texts)) box,
                  snd (last grouped_texts) @ '' '' @ text)])
             rest x_threshold y_threshold font_threshold
      else group_loop (grouped_texts @ [(box, text)]) rest x_threshold y_threshold font_threshold)"

text \<open>
  \<open>group_text_boxes(results, x_threshold, y_threshold, font_threshold)\<close>.  The call sorts
  the caller's list in place, so the model returns two values: the contents of the
  caller's list \<open>results\<close> after the call, and the returned list of groups.
\<close>

definition group_text_boxes ::
  "'c detection list \<Rightarrow> int \<Rightarrow> int \<Rightarrow> int \<Rightarrow> 'c detection list \<times> group list" where
  "group_text_boxes results x_threshold y_threshold font_threshold =
     (let results' = sort_key sort_key_of results
      in (results', group_loop [] results' x_threshold y_threshold font_threshold))"

text \<open>The default arguments \<open>x_threshold = 50, y_threshold = 90, font_threshold = 10\<close>.\<close>

definition group_text_boxes_default :: "'c detection list \<Rightarrow> 'c detection list \<times> group list" where
  "group_text_boxes_default results = group_text_boxes results 50 90 10"

section \<open>Paragraph grouping\<close>

text \<open>
  The inner loop \<open>for i, (box2, text2) in enumerate(boxes)\<close> of \<open>check_paragraph\<close> for one
  line group \<open>(box1, text1)\<close>: the first paragraph that is near absorbs the line and the
  scan stops (\<open>break\<close>).  \<open>Some\<close> is the updated list with \<open>merged = True\<close>, \<open>None\<close> means
  the scan ended with \<open>merged = False\<close>.  The local list \<open>delete\<close> is only ever extended,
  never read and never returned, so it is not part of the model.
\<close>

fun scan_boxes :: "group list \<Rightarrow> box \<Rightarrow> string \<Rightarrow> int \<Rightarrow> int \<Rightarrow> group list option" where
  "scan_boxes [] box1 text1 parag_y_threshold parag_x_threshold = None"
| "scan_boxes ((box2, text2) # boxes) box1 text1 parag_y_threshold parag_x_threshold =
     (if is_nearby_parag box2 box1 parag_y_threshold parag_x_threshold
      then Some ((merge_boxes box2 box1, text2 @ '' '' @ text1) # boxes)
      else map_option (Cons (box2, text2))
             (scan_boxes boxes box1 text1 parag_y_threshold parag_x_threshold))"

text \<open>The outer loop \<open>for box1, text1 in grouped_texts[1:]\<close>.\<close>

fun parag_loop :: "group list \<Rightarrow> group list \<Rightarrow> int \<Rightarrow> int \<Rightarrow> group list" where
  "parag_loop boxes [] parag_y_threshold parag_x_threshold = boxes"
| "parag_loop boxes ((box1, text1) # rest) parag_y_threshold parag_x_threshold =
     (case scan_boxes boxes box1 text1 parag_y_threshold parag_x_threshold of
        Some boxes' \<Rightarrow> parag_loop boxes' rest parag_y_threshold parag_x_threshold
      | None \<Rightarrow> parag_loop (boxes @ [(box1, text1)]) rest parag_y_threshold parag_x_threshold)"

text \<open>
  \<open>check_paragraph(grouped_texts, parag_y_threshold, parag_x_threshold)\<close>, on the values
  of the groups.  The first statement reads \<open>grouped_texts[0]\<close>, which raises
  \<open>IndexError\<close> on the empty list.  The values are what the call computes when the
  groups of the list are distinct objects, as the groups returned by \<open>group_text_boxes\<close>
  are; the version on the store below covers the general case and is related to this
  one in the section on the store.
\<close>

definition check_paragraph :: "group list \<Rightarrow> int \<Rightarrow> int \<Rightarrow> py_error + group list" where
  "check_paragraph grouped_texts parag_y_threshold parag_x_threshold =
     (case grouped_texts of
        [] \<Rightarrow> Inl IndexError
      | first # rest \<Rightarrow> Inr (parag_loop [first] rest parag_y_threshold parag_x_threshold))"

text \<open>The default arguments \<open>parag_y_threshold = 5, parag_x_threshold = 47\<close>.\<close>

definition check_paragraph_default :: "group list \<Rightarrow> py_error + group list" where
  "check_paragraph_default grouped_texts = check_paragraph grouped_texts 5 47"

text \<open>The two grouping calls of \<open>main\<close>, on values.\<close>

definition pipeline :: "'c detection list \<Rightarrow> py_error + group list" where
  "pipeline results = check_paragraph_default (snd (group_text_boxes_default results))"

section \<open>Groups as mutable cells\<close>

text \<open>
  A group \<open>[box, text]\<close> is a mutable Python list, and both grouping functions write to
  groups in place (\<open>grouped_texts[-1][1] += ...\<close>, \<open>boxes[i][0] = ...\<close>).  To see which
  object a write lands on, the groups live in a store of cells: the address of a cell is
  its index, allocating a new list \<open>[box, text]\<close> appends a cell, and a list of groups is a
  list of addresses.  Detection tuples, strings and the corner data of a box are never
  written by the code and stay values.
\<close>

type_synonym addr = nat

type_synonym cells = "group list"

fun group_loop_st ::
  "cells \<Rightarrow> addr list \<Rightarrow> 'c detection list \<Rightarrow> int \<Rightarrow> int \<Rightarrow> int \<Rightarrow> cells \<times> addr list" where
  "group_loop_st h grouped_texts [] x_threshold y_threshold font_threshold = (h, grouped_texts)"
| "group_loop_st h grouped_texts (result # rest) x_threshold y_threshold font_threshold =
     (let box = fst result; text = fst (snd result) in
      if grouped_texts \<noteq> [] \<and>
         is_nearby (fst (h ! last grouped_texts)) box x_threshold y_threshold font_threshold
      then group_loop_st
             (h[last grouped_texts :=
                  (merge_boxes (fst (h ! last grouped_texts)) box,
                   snd (h ! last grouped_texts) @ '' '' @ text)])
             grouped_texts rest x_threshold y_threshold font_threshold
      else group_loop_st (h @ [(box, text)]) (grouped_texts @ [length h]) rest
             x_threshold y_threshold font_threshold)"

text \<open>
  \<open>group_text_boxes\<close> on the store: the contents of the caller's list after the in-place
  sort, the store after the call, and the returned list of group cells.
\<close>

definition group_text_boxes_st ::
  "cells \<Rightarrow> 'c detection list \<Rightarrow> int \<Rightarrow> int \<Rightarrow> int \<Rightarrow> 'c detection list \<times> cells \<times> addr list" where
  "group_text_boxes_st h results x_threshold y_threshold font_threshold =
     (let results' = sort_key sort_key_of results;
          (h', grouped_texts) = group_loop_st h [] results' x_threshold y_threshold font_threshold
      in (results', h', grouped_texts))"

text \<open>
  The inner loop of \<open>check_paragraph\<close> on the store: \<open>boxes[i]\<close> is the cell at address
  \<open>p\<close>, and both assignments write to that cell.
\<close>

fun scan_boxes_st :: "cells \<Rightarrow> addr list \<Rightarrow> box \<Rightarrow> string \<Rightarrow> int \<Rightarrow> int \<Rightarrow> cells option" where
  "scan_boxes_st h [] box1 text1 parag_y_threshold parag_x_threshold = None"
| "scan_boxes_st h (p # boxes) box1 text1 parag_y_threshold parag_x_threshold =
     (let box2 = fst (h ! p); text2 = snd (h ! p) in
      if is_nearby_parag box2 box1 parag_y_threshold parag_x_threshold
      then Some (h[p := (merge_boxes box2 box1, text2 @ '' '' @ text1)])
      else scan_boxes_st h boxes box1 text1 parag_y_threshold parag_x_threshold)"

text \<open>
  The outer loop: \<open>box1, text1\<close> are unpacked from the cell when the loop reaches it, and
  a line that starts a paragraph is stored in a new list \<open>[box1, text1]\<close>.
\<close>

fun parag_loop_st :: "cells \<Rightarrow> addr list \<Rightarrow> addr list \<Rightarrow> int \<Rightarrow> int \<Rightarrow> cells \<times> addr list" where
  "parag_loop_st h boxes [] parag_y_threshold parag_x_threshold = (h, boxes)"
| "parag_loop_st h boxes (a # rest) parag_y_threshold parag_x_threshold =
     (let box1 = fst (h ! a); text1 = snd (h ! a) in
      case scan_boxes_st h boxes box1 text1 parag_y_threshold parag_x_threshold of
        Some h' \<Rightarrow> parag_loop_st h' boxes rest parag_y_threshold parag_x_threshold
      | None \<Rightarrow> parag_loop_st (h @ [(box1, text1)]) (boxes @ [length h]) rest
                  parag_y_threshold parag_x_threshold)"

text \<open>
  \<open>check_paragraph\<close> on the store.  \<open>boxes = [grouped_texts[0]]\<close> puts the first input
  cell itself into the output list; \<open>grouped_texts[1:]\<close> is a copy, and the list
  \<open>grouped_texts\<close> is only read.
\<close>

definition check_paragraph_st ::
  "cells \<Rightarrow> addr list \<Rightarrow> int \<Rightarrow> int \<Rightarrow> py_error + cells \<times> addr list" where
  "check_paragraph_st h grouped_texts parag_y_threshold parag_x_threshold =
     (case grouped_texts of
        [] \<Rightarrow> Inl IndexError
      | first # rest \<Rightarrow> Inr (parag_loop_st h [first] rest parag_y_threshold parag_x_threshold))"

text \<open>The two grouping calls of \<open>main\<close> on the store, with the default thresholds.\<close>

definition pipeline_st ::
  "cells \<Rightarrow> 'c detection list \<Rightarrow> 'c detection list \<times> (py_error + cells \<times> addr list)" where
  "pipeline_st h results =
     (let (results', h', grouped_texts) = group_text_boxes_st h results 50 90 10
      in (results', check_paragraph_st h' grouped_texts 5 47))"

text \<open>The values of the groups a call returned, read from the store it left.\<close>

definition read_groups :: "py_error + cells \<times> addr list \<Rightarrow> py_error + group list" where
  "read_groups r = (case r of Inl e \<Rightarrow> Inl e | Inr (h, out) \<Rightarrow> Inr (map (nth h) out))"

section \<open>Click handler\<close>

text \<open>
  \<open>cv2.EVENT_LBUTTONDOWN\<close> is the OpenCV constant 1.  The handler has two effects: it
  writes to the clipboard (\<open>pyperclip.copy\<close>) and prints a line; both are fields of the
  state it transforms.  The library function \<open>str.lower\<close> is a parameter \<open>lower\<close> of the
  model, so that what is proved holds for Python's own case mapping.
\<close>

definition EVENT_LBUTTONDOWN :: int where
  "EVENT_LBUTTONDOWN = 1"

text \<open>
  The boxes the handler is given are four corner points whose coordinates are numbers,
  integers or floats; the handler converts each coordinate it reads with \<open>int()\<close>.
  \<open>int(v)\<close> is the integer part of \<open>v\<close>, truncated toward zero (\<open>int(2.7) = 2\<close>,
  \<open>int(-2.7) = -2\<close>); an integer is left as it is.
\<close>

datatype real_box =
  RBox (r0: "real \<times> real") (r1: "real \<times> real") (r2: "real \<times> real") (r3: "real \<times> real")

definition py_int :: "real \<Rightarrow> int" where
  "py_int v = (if 0 \<le> v then \<lfloor>v\<rfloor> else \<lceil>v\<rceil>)"

record console =
  clipboard :: string
  printed :: "string list"

text \<open>The loop \<open>for box, text in results\<close> of the handler; it has no \<open>break\<close>.\<close>

fun click_loop ::
  "(string \<Rightarrow> string) \<Rightarrow> (real_box \<times> string) list \<Rightarrow> int \<Rightarrow> int \<Rightarrow> console \<Rightarrow> console" where
  "click_loop lower [] x y io = io"
| "click_loop lower ((box, text) # results) x y io =
     (let top_left = (py_int (fst (r0 box)), py_int (snd (r0 box)));
          bottom_right = (py_int (fst (r2 box)), py_int (snd (r2 box))) in
      if fst top_left \<le> x \<and> x \<le> fst bottom_right \<and> snd top_left \<le> y \<and> y \<le> snd bottom_right
      then click_loop lower results x y
             (io\<lparr>clipboard := lower text,
                 printed := printed io @ [''Copied text: '' @ lower text]\<rparr>)
      else click_loop lower results x y io)"

text \<open>\<open>mouse_callback(event, x, y, flags, param)\<close> with \<open>param = (results, img)\<close>.\<close>

definition mouse_callback ::
  "(string \<Rightarrow> string) \<Rightarrow> int \<Rightarrow> int \<Rightarrow> int \<Rightarrow> int \<Rightarrow>
   (real_box \<times> string) list \<times> 'img \<Rightarrow> console \<Rightarrow> console" where
  "mouse_callback lower event x y flags param io =
     (if event = EVENT_LBUTTONDOWN
      then (let results = fst param; img = snd param in click_loop lower results x y io)
      else io)"

section \<open>Notions used in the statements\<close>

text \<open>
  A point lies within or on the boundary of a box when it passes the inclusive test of
  the click handler against the extent held in corners 0 and 2.
\<close>

definition inside :: "point \<Rightarrow> box \<Rightarrow> bool" where
  "inside p r =
     (fst (c0 r) \<le> fst p \<and> fst p \<le> fst (c2 r) \<and> snd (c0 r) \<le> snd p \<and> snd p \<le> snd (c2 r))"

definition contains_box :: "box \<Rightarrow> box \<Rightarrow> bool" where
  "contains_box r a = (inside (c0 a) r \<and> inside (c1 a) r \<and> inside (c2 a) r \<and> inside (c3 a) r)"



text \<open>
  The box the click handler tests a click against: the corners with every coordinate
  converted by \<open>int()\<close>.  \<open>hits\<close> are the groups whose converted box contains the click.
\<close>

definition trunc_box :: "real_box \<Rightarrow> box" where
  "trunc_box b =
     Box (py_int (fst (r0 b)), py_int (snd (r0 b))) (py_int (fst (r1 b)), py_int (snd (r1 b)))
         (py_int (fst (r2 b)), py_int (snd (r2 b))) (py_int (fst (r3 b)), py_int (snd (r3 b)))"

definition hits :: "(real_box \<times> string) list \<Rightarrow> int \<Rightarrow> int \<Rightarrow> (real_box \<times> string) list" where
  "hits groups x y = filter (\<lambda>g. inside (x, y) (trunc_box (fst g))) groups"

text \<open>
  The hit test in the words of the specification: a box contains the point when the
  point lies within the extent of the box as it is, bounds included, and the hit is the
  first group in list order whose box contains the point, or nothing.  A box has
  integer corners when the four coordinates of its extent are whole numbers.
\<close>

definition contains_point :: "real_box \<Rightarrow> int \<Rightarrow> int \<Rightarrow> bool" where
  "contains_point b x y =
     (fst (r0 b) \<le> of_int x \<and> of_int x \<le> fst (r2 b) \<and>
      snd (r0 b) \<le> of_int y \<and> of_int y \<le> snd (r2 b))"

definition hit_test ::
  "(real_box \<times> string) list \<Rightarrow> int \<Rightarrow> int \<Rightarrow> (real_box \<times> string) option" where
  "hit_test groups x y = find (\<lambda>g. contains_point (fst g) x y) groups"

definition integer_corners :: "real_box \<Rightarrow> bool" where
  "integer_corners b =
     (fst (r0 b) \<in> \<int> \<and> snd (r0 b) \<in> \<int> \<and> fst (r2 b) \<in> \<int> \<and> snd (r2 b) \<in> \<int>)"


subsection \<open>Line grouping in the words of the specification\<close>

text \<open>
  The extent \<open>(xmin, ymin, xmax, ymax)\<close> of a box is read from its corners 0 and 2, and
  its height is \<open>ymax - ymin\<close>.  The nearby test, the step for one detection against the
  last group, and the pass over the sorted detections follow the specification's
  description of the line grouper.
\<close>

definition xmin :: "box \<Rightarrow> int" where
  "xmin b = fst (c0 b)"

definition ymin :: "box \<Rightarrow> int" where
  "ymin b = snd (c0 b)"

definition xmax :: "box \<Rightarrow> int" where
  "xmax b = fst (c2 b)"

definition ymax :: "box \<Rightarrow> int" where
  "ymax b = snd (c2 b)"





subsection \<open>Paragraph grouping in the words of the specification\<close>

text \<open>
  The bottom edge of a paragraph is read at its corner 3, the top and left edge of a
  line at its corner 0.  A line is merged into the first paragraph of the output list
  that is near, and appended when none is.  The merged box is the box whose extent is
  the union of both extents, \<open>xmin = min(...), ymin = min(...), xmax = max(...),
  ymax = max(...)\<close>, written in the fixed four-corner order.
\<close>

definition merge_spec :: "box \<Rightarrow> box \<Rightarrow> box" where
  "merge_spec a b =
     (let x_min = min (xmin a) (xmin b); y_min = min (ymin a) (ymin b);
          x_max = max (xmax a) (xmax b); y_max = max (ymax a) (ymax b)
      in Box (x_min, y_min) (x_max, y_min) (x_max, y_max) (x_min, y_max))"

definition bottom_edge_y :: "box \<Rightarrow> int" where
  "bottom_edge_y b = snd (c3 b)"

definition top_edge_y :: "box \<Rightarrow> int" where
  "top_edge_y b = snd (c0 b)"

definition left_edge_x :: "box \<Rightarrow> int" where
  "left_edge_x b = fst (c0 b)"

definition nearby_paragraph_spec :: "group \<Rightarrow> group \<Rightarrow> int \<Rightarrow> int \<Rightarrow> bool" where
  "nearby_paragraph_spec p g y_threshold x_threshold =
     (\<bar>bottom_edge_y (fst p) - top_edge_y (fst g)\<bar> < y_threshold \<and>
      \<bar>left_edge_x (fst p) - left_edge_x (fst g)\<bar> < x_threshold)"

definition parag_step_spec :: "int \<Rightarrow> int \<Rightarrow> group list \<Rightarrow> group \<Rightarrow> group list" where
  "parag_step_spec y_threshold x_threshold out g =
     (case dropWhile (\<lambda>p. \<not> nearby_paragraph_spec p g y_threshold x_threshold) out of
        [] \<Rightarrow> out @ [g]
      | p # after \<Rightarrow>
          takeWhile (\<lambda>p. \<not> nearby_paragraph_spec p g y_threshold x_threshold) out @
            (merge_spec (fst p) (fst g), snd p @ '' '' @ snd g) # after)"

subsection \<open>Words of a text\<close>

text \<open>
  \<open>join_sp\<close> is Python's \<open>" ".join\<close>; the words of a text are its maximal runs of
  characters other than the space, as \<open>str.split\<close> gives them for space-separated text.
\<close>

fun join_sp :: "string list \<Rightarrow> string" where
  "join_sp [] = []"
| "join_sp [t] = t"
| "join_sp (t # u # ts) = t @ '' '' @ join_sp (u # ts)"

fun words_from :: "string \<Rightarrow> string \<Rightarrow> string list" where
  "words_from w [] = (if w = [] then [] else [w])"
| "words_from w (c # cs) =
     (if c = CHR '' '' then (if w = [] then [] else [w]) @ words_from [] cs
      else words_from (w @ [c]) cs)"

definition words_of :: "string \<Rightarrow> string list" where
  "words_of t = words_from [] t"

definition all_words :: "string list \<Rightarrow> string list" where
  "all_words ts = concat (map words_of ts)"

subsection \<open>Calls without side effects\<close>

text \<open>
  A call of \<open>group_text_boxes\<close> is free of side effects when it leaves the caller's list as
  it was, leaves every group cell that existed before as it was, and returns only cells
  that did not exist before; likewise for a call of \<open>check_paragraph\<close> that returns.
\<close>

definition lines_side_effect_free :: "cells \<Rightarrow> 'c detection list \<Rightarrow> int \<Rightarrow> int \<Rightarrow> int \<Rightarrow> bool" where
  "lines_side_effect_free h results x_threshold y_threshold font_threshold =
     (case group_text_boxes_st h results x_threshold y_threshold font_threshold of
        (results', h', out) \<Rightarrow>
          results' = results \<and> take (length h) h' = h \<and> (\<forall>a\<in>set out. length h \<le> a))"

definition parag_side_effect_free :: "cells \<Rightarrow> addr list \<Rightarrow> int \<Rightarrow> int \<Rightarrow> bool" where
  "parag_side_effect_free h grouped_texts parag_y_threshold parag_x_threshold =
     (case check_paragraph_st h grouped_texts parag_y_threshold parag_x_threshold of
        Inl e \<Rightarrow> True
      | Inr (h', out) \<Rightarrow> take (length h) h' = h \<and> (\<forall>a\<in>set out. length h \<le> a))"

section \<open>Properties of the box geometry\<close>

lemma merge_boxes_commute: "merge_boxes a b = merge_boxes b a"
  by (simp add: merge_boxes_def Let_def min.commute max.commute)

lemma merge_boxes_assoc: "merge_boxes (merge_boxes a b) c = merge_boxes a (merge_boxes b c)"
  by (simp add: merge_boxes_def Let_def min.assoc max.assoc)

lemma merge_boxes_left_commute:
  "merge_boxes (merge_boxes acc a) b = merge_boxes (merge_boxes acc b) a"
  by (metis merge_boxes_assoc merge_boxes_commute)

lemma fold_merge_boxes_mset:
  "mset bs = mset bs' \<Longrightarrow>
   fold (\<lambda>b acc. merge_boxes acc b) bs a = fold (\<lambda>b acc. merge_boxes acc b) bs' a"
  by (rule fold_permuted_eq [where P = "\<lambda>_. True"]) (auto simp: merge_boxes_left_commute)

text \<open>
  C7: \<open>merge_boxes\<close> is commutative and associative on all boxes, so merging a collection
  of boxes into a starting box one after the other gives the same box for every order
  of the collection.
\<close>

theorem merge_boxes_order_independent:
  "merge_boxes a b = merge_boxes b a \<and>
   merge_boxes (merge_boxes a b) c = merge_boxes a (merge_boxes b c) \<and>
   (\<forall>bs bs'. mset bs = mset bs' \<longrightarrow>
      fold (\<lambda>b acc. merge_boxes acc b) bs a = fold (\<lambda>b acc. merge_boxes acc b) bs' a)"
  using merge_boxes_commute merge_boxes_assoc fold_merge_boxes_mset by blast

theorem merge_boxes_order_independent_witness:
  "mset [Box (0, 0) (4, 0) (4, 2) (0, 2), Box (3, 1) (9, 1) (9, 5) (3, 5)] =
     mset [Box (3, 1) (9, 1) (9, 5) (3, 5), Box (0, 0) (4, 0) (4, 2) (0, 2)] \<and>
   fold (\<lambda>b acc. merge_boxes acc b)
     [Box (0, 0) (4, 0) (4, 2) (0, 2), Box (3, 1) (9, 1) (9, 5) (3, 5)]
     (Box (1, 1) (2, 1) (2, 2) (1, 2)) =
   fold (\<lambda>b acc. merge_boxes acc b)
     [Box (3, 1) (9, 1) (9, 5) (3, 5), Box (0, 0) (4, 0) (4, 2) (0, 2)]
     (Box (1, 1) (2, 1) (2, 2) (1, 2))"
proof -
  have perm: "mset [Box (0, 0) (4, 0) (4, 2) (0, 2), Box (3, 1) (9, 1) (9, 5) (3, 5)] =
     mset [Box (3, 1) (9, 1) (9, 5) (3, 5), Box (0, 0) (4, 0) (4, 2) (0, 2)]"
    by simp
  from merge_boxes_order_independent [of "Box (1, 1) (2, 1) (2, 2) (1, 2)"] perm
  show ?thesis by blast
qed

text \<open>
  A quadrilateral whose corners 1 and 3 lie outside the extent of its corners 0 and 2
  (a slightly rotated text line) is not contained in its own merge.
\<close>

theorem merge_boxes_containment_counterexample:
  "\<not> contains_box
       (merge_boxes (Box (0, 2) (10, 0) (10, 8) (0, 10)) (Box (0, 2) (10, 0) (10, 8) (0, 10)))
       (Box (0, 2) (10, 0) (10, 8) (0, 10))"
  by (simp add: contains_box_def inside_def merge_boxes_def)

text \<open>
  C6, amended: for boxes \<open>a\<close> and \<open>b\<close> each of whose four corners lies within or on the
  boundary of its own extent (the extent held in its corners 0 and 2), as is the case for
  every well-formed axis-aligned box in the fixed winding order, the box returned by
  \<open>merge_boxes(a, b)\<close> contains both: every corner of \<open>a\<close> and of \<open>b\<close> lies within or on
  the boundary of the result.
\<close>

theorem merge_boxes_contains:
  "contains_box a a \<Longrightarrow> contains_box b b \<Longrightarrow>
   contains_box (merge_boxes a b) a \<and> contains_box (merge_boxes a b) b"
  by (auto simp: contains_box_def inside_def merge_boxes_def Let_def)

theorem merge_boxes_contains_witness:
  "contains_box (Box (0, 0) (40, 0) (40, 20) (0, 20)) (Box (0, 0) (40, 0) (40, 20) (0, 20)) \<and>
   contains_box (Box (45, 5) (80, 5) (80, 30) (45, 30)) (Box (45, 5) (80, 5) (80, 30) (45, 30)) \<and>
   contains_box
     (merge_boxes (Box (0, 0) (40, 0) (40, 20) (0, 20)) (Box (45, 5) (80, 5) (80, 30) (45, 30)))
     (Box (0, 0) (40, 0) (40, 20) (0, 20)) \<and>
   contains_box
     (merge_boxes (Box (0, 0) (40, 0) (40, 20) (0, 20)) (Box (45, 5) (80, 5) (80, 30) (45, 30)))
     (Box (45, 5) (80, 5) (80, 30) (45, 30))"
proof -
  have a: "contains_box (Box (0, 0) (40, 0) (40, 20) (0, 20)) (Box (0, 0) (40, 0) (40, 20) (0, 20))"
    by (simp add: contains_box_def inside_def)
  have b: "contains_box (Box (45, 5) (80, 5) (80, 30) (45, 30)) (Box (45, 5) (80, 5) (80, 30) (45, 30))"
    by (simp add: contains_box_def inside_def)
  from merge_boxes_contains [OF a b] a b show ?thesis by simp
qed

section \<open>Box invariant through the pipeline\<close>




text \<open>A property of boxes that every input has and that merging keeps holds for every group.\<close>

lemma group_loop_merge:
  "acc \<noteq> [] \<Longrightarrow> is_nearby (fst (last acc)) (fst d) xt yt ft \<Longrightarrow>
   group_loop acc (d # ds) xt yt ft =
     group_loop (butlast acc @
       [(merge_boxes (fst (last acc)) (fst d), snd (last acc) @ '' '' @ fst (snd d))]) ds xt yt ft"
  by (simp add: Let_def)

lemma group_loop_new:
  "acc = [] \<or> \<not> is_nearby (fst (last acc)) (fst d) xt yt ft \<Longrightarrow>
   group_loop acc (d # ds) xt yt ft = group_loop (acc @ [(fst d, fst (snd d))]) ds xt yt ft"
  by (auto simp: Let_def)











section \<open>Line grouping against the specification\<close>






section \<open>Paragraph grouping against the specification\<close>

lemma is_nearby_parag_spec:
  "is_nearby_parag (fst p) (fst g) yt xt = nearby_paragraph_spec p g yt xt"
  by (simp add: is_nearby_parag_def nearby_paragraph_spec_def Let_def bottom_edge_y_def
      top_edge_y_def left_edge_x_def)

lemma merge_boxes_spec: "merge_boxes a b = merge_spec a b"
  by (simp add: merge_boxes_def merge_spec_def Let_def xmin_def ymin_def xmax_def ymax_def)

lemma scan_boxes_spec:
  "(case scan_boxes boxes box1 text1 yt xt of
      None \<Rightarrow> boxes @ [(box1, text1)] | Some boxes' \<Rightarrow> boxes') =
   parag_step_spec yt xt boxes (box1, text1)"
proof -
  let ?near = "\<lambda>p. nearby_paragraph_spec p (box1, text1) yt xt"
  have none: "scan_boxes boxes box1 text1 yt xt = None \<longleftrightarrow> dropWhile (\<lambda>p. \<not> ?near p) boxes = []"
    for boxes
  proof (induction boxes)
    case Nil
    show ?case by simp
  next
    case (Cons p boxes)
    obtain box2 text2 where p: "p = (box2, text2)" by (cases p)
    from is_nearby_parag_spec [of p "(box1, text1)" yt xt]
    have "is_nearby_parag box2 box1 yt xt = ?near p" by (simp add: p)
    with Cons.IH show ?case by (simp add: p)
  qed
  have some: "scan_boxes boxes box1 text1 yt xt = Some boxes' \<Longrightarrow>
      \<exists>p after. dropWhile (\<lambda>p. \<not> ?near p) boxes = p # after \<and>
        boxes' = takeWhile (\<lambda>p. \<not> ?near p) boxes @
           (merge_spec (fst p) box1, snd p @ '' '' @ text1) # after"
    for boxes boxes'
  proof (induction boxes arbitrary: boxes')
    case Nil
    then show ?case by simp
  next
    case (Cons p boxes)
    obtain box2 text2 where p: "p = (box2, text2)" by (cases p)
    from is_nearby_parag_spec [of p "(box1, text1)" yt xt]
    have near: "is_nearby_parag box2 box1 yt xt = ?near p" by (simp add: p)
    show ?case
    proof (cases "?near p")
      case True
      with Cons.prems near show ?thesis by (simp add: p merge_boxes_spec)
    next
      case False
      with Cons.prems near obtain bs where bs: "scan_boxes boxes box1 text1 yt xt = Some bs"
        and eq: "boxes' = p # bs" by (auto simp: p)
      from Cons.IH [OF bs] False eq show ?thesis by auto
    qed
  qed
  show ?thesis
  proof (cases "scan_boxes boxes box1 text1 yt xt")
    case None
    from none [of boxes, THEN iffD1, OF None]
    show ?thesis unfolding parag_step_spec_def None by (simp only: list.case option.case)
  next
    case (Some boxes')
    from some [OF Some] obtain p after where
      dw: "dropWhile (\<lambda>p. \<not> ?near p) boxes = p # after" and
      eq: "boxes' = takeWhile (\<lambda>p. \<not> ?near p) boxes @
           (merge_spec (fst p) box1, snd p @ '' '' @ text1) # after"
      by blast
    show ?thesis unfolding parag_step_spec_def Some dw eq
      by (simp only: list.case option.case fst_conv snd_conv)
  qed
qed

lemma parag_loop_foldl:
  "parag_loop boxes rest yt xt = foldl (parag_step_spec yt xt) boxes rest"
proof (induction rest arbitrary: boxes)
  case Nil
  show ?case by simp
next
  case (Cons g rest)
  obtain box1 text1 where g: "g = (box1, text1)" by (cases g)
  from scan_boxes_spec [of boxes box1 text1 yt xt] show ?case
    by (cases "scan_boxes boxes box1 text1 yt xt") (simp_all add: g Cons.IH)
qed

text \<open>
  C5: on a list with a first line group, \<open>check_paragraph\<close> seeds its output with that
  group and passes over the others in order, merging each into the first paragraph of
  the output list that is near (text appended after a space, box replaced by the box
  that spans both extents) and appending it as a new paragraph when none is; the
  default thresholds are 5 and 47, under which a line at x = 10 and a line at x = 12
  that starts 3 pixels below the first merge into one paragraph, whose box spans both
  lines.
\<close>

theorem check_paragraph_refines_spec:
  "check_paragraph (first # rest) yt xt = Inr (foldl (parag_step_spec yt xt) [first] rest) \<and>
   check_paragraph_default gs = check_paragraph gs 5 47 \<and>
   (0 \<le> h \<and> 0 \<le> h' \<longrightarrow>
      check_paragraph_default
        [(Box (10, y) (r, y) (r, y + h) (10, y + h), t1),
         (Box (12, y + h + 3) (r', y + h + 3) (r', y + h + 3 + h') (12, y + h + 3 + h'), t2)] =
      Inr [(Box (10, y) (max r r', y) (max r r', y + h + 3 + h') (10, y + h + 3 + h'),
            t1 @ '' '' @ t2)])"
proof -
  have "check_paragraph_default
        [(Box (10, y) (r, y) (r, y + h) (10, y + h), t1),
         (Box (12, y + h + 3) (r', y + h + 3) (r', y + h + 3 + h') (12, y + h + 3 + h'), t2)] =
      Inr [(Box (10, y) (max r r', y) (max r r', y + h + 3 + h') (10, y + h + 3 + h'),
            t1 @ '' '' @ t2)]"
    if "0 \<le> h" and "0 \<le> h'"
    using that
    by (simp add: check_paragraph_default_def check_paragraph_def is_nearby_parag_def
        merge_boxes_def)
  then show ?thesis
    by (simp add: check_paragraph_def parag_loop_foldl check_paragraph_default_def)
qed

theorem check_paragraph_refines_spec_witness:
  "(0::int) \<le> 20 \<and> (0::int) \<le> 20 \<and>
   check_paragraph_default
     [(Box (10, 0) (50, 0) (50, 20) (10, 20), ''first line''),
      (Box (12, 23) (60, 23) (60, 43) (12, 43), ''second line'')] =
   Inr [(Box (10, 0) (60, 0) (60, 43) (10, 43), ''first line second line'')]"
proof -
  note inst = check_paragraph_refines_spec [where h = 20 and h' = 20 and y = 0 and r = 50
      and r' = 60 and ?t1.0 = "''first line''" and ?t2.0 = "''second line''"]
  from inst [THEN conjunct2, THEN conjunct2] show ?thesis by simp
qed

section \<open>Click handler\<close>

lemma py_int_of_int: "py_int (of_int n) = n"
  by (simp add: py_int_def)

lemma py_int_le: "v \<le> of_int x \<Longrightarrow> py_int v \<le> x"
  by (simp add: py_int_def floor_le_iff ceiling_le_iff)

lemma le_py_int: "of_int x \<le> v \<Longrightarrow> x \<le> py_int v"
  by (simp add: py_int_def le_floor_iff le_ceiling_iff)

lemma py_int_Ints: "v \<in> \<int> \<Longrightarrow> of_int (py_int v) = v"
  by (auto simp: py_int_of_int elim: Ints_cases)

lemma contains_point_trunc:
  "contains_point b x y \<Longrightarrow> inside (x, y) (trunc_box b)"
  by (simp add: contains_point_def inside_def trunc_box_def py_int_le le_py_int)

lemma integer_corners_trunc:
  assumes "integer_corners b"
  shows "inside (x, y) (trunc_box b) = contains_point b x y"
proof -
  from assms obtain a0 b0 a2 b2 where
    "fst (r0 b) = of_int a0" "snd (r0 b) = of_int b0" "fst (r2 b) = of_int a2" "snd (r2 b) = of_int b2"
    unfolding integer_corners_def by (auto elim!: Ints_cases)
  then show ?thesis
    by (simp add: contains_point_def inside_def trunc_box_def py_int_of_int)
qed

lemma click_loop_Cons:
  "click_loop lower ((b, t) # results) x y io =
     (if inside (x, y) (trunc_box b)
      then click_loop lower results x y
             (io\<lparr>clipboard := lower t, printed := printed io @ [''Copied text: '' @ lower t]\<rparr>)
      else click_loop lower results x y io)"
  by (simp add: inside_def trunc_box_def Let_def)

lemma click_loop_hits:
  "click_loop lower groups x y io =
     io\<lparr>clipboard := (if hits groups x y = [] then clipboard io
                      else lower (snd (last (hits groups x y)))),
        printed := printed io @ map (\<lambda>g. ''Copied text: '' @ lower (snd g)) (hits groups x y)\<rparr>"
proof (induction groups arbitrary: io)
  case Nil
  show ?case by (simp add: hits_def)
next
  case (Cons g groups)
  obtain b t where g: "g = (b, t)" by (cases g)
  show ?case
  proof (cases "inside (x, y) (trunc_box b)")
    case True
    then show ?thesis
      unfolding g click_loop_Cons
      by (simp add: Cons.IH hits_def)
  next
    case False
    then show ?thesis
      unfolding g click_loop_Cons
      by (simp add: Cons.IH hits_def)
  qed
qed

text \<open>
  Two overlapping groups with integer corners and a click inside both: the first group
  in list order is "One", but the loop goes on after copying it, and the clipboard ends
  up holding the lowercased text of "Two", whatever the case mapping; with a case
  mapping that takes "One" to "one" and "Two" to "two", as \<open>str.lower\<close> does, that is
  not the lowercased text of the first group.
\<close>

theorem mouse_callback_first_hit_counterexample:
  "hit_test [(RBox (0, 0) (10, 0) (10, 10) (0, 10), ''One''),
             (RBox (3, 3) (20, 3) (20, 20) (3, 20), ''Two'')] 5 5 =
     Some (RBox (0, 0) (10, 0) (10, 10) (0, 10), ''One'') \<and>
   (\<forall>lower. clipboard (mouse_callback lower EVENT_LBUTTONDOWN 5 5 0
       ([(RBox (0, 0) (10, 0) (10, 10) (0, 10), ''One''),
         (RBox (3, 3) (20, 3) (20, 20) (3, 20), ''Two'')], ())
       \<lparr>clipboard = ''old'', printed = []\<rparr>) = lower ''Two'') \<and>
   clipboard (mouse_callback
       (\<lambda>t. if t = ''One'' then ''one'' else if t = ''Two'' then ''two'' else t)
       EVENT_LBUTTONDOWN 5 5 0
       ([(RBox (0, 0) (10, 0) (10, 10) (0, 10), ''One''),
         (RBox (3, 3) (20, 3) (20, 20) (3, 20), ''Two'')], ())
       \<lparr>clipboard = ''old'', printed = []\<rparr>) \<noteq>
     (\<lambda>t. if t = ''One'' then ''one'' else if t = ''Two'' then ''two'' else t) ''One''"
  by (simp add: hit_test_def contains_point_def mouse_callback_def py_int_def)

text \<open>
  C2, amended: on a left-button-down event, for every list of groups and every click
  point, the handler copies the lowercased text (\<open>str.lower\<close>) of every group whose box
  contains the point with inclusive bounds on all four sides once the box's corner
  coordinates have been converted with \<open>int()\<close>, one after the other in list order, so
  the text left on the clipboard is that of the last such group (the only one, when
  there is just one); if there is no such group, nothing is copied and nothing is
  printed.  Every group whose box as given contains the point is among the groups
  copied, and when the corner coordinates are integers the groups copied are exactly
  the groups whose box contains the point.  Other events change nothing.
\<close>

theorem mouse_callback_copies_every_hit:
  "mouse_callback lower EVENT_LBUTTONDOWN x y flags (groups, img) io =
     io\<lparr>clipboard := (if hits groups x y = [] then clipboard io
                      else lower (snd (last (hits groups x y)))),
        printed := printed io @ map (\<lambda>g. ''Copied text: '' @ lower (snd g)) (hits groups x y)\<rparr> \<and>
   (hits groups x y = [] \<longrightarrow>
      mouse_callback lower EVENT_LBUTTONDOWN x y flags (groups, img) io = io) \<and>
   (hits groups x y = [g] \<longrightarrow>
      clipboard (mouse_callback lower EVENT_LBUTTONDOWN x y flags (groups, img) io) =
        lower (snd g)) \<and>
   (\<forall>g\<in>set groups. contains_point (fst g) x y \<longrightarrow> g \<in> set (hits groups x y)) \<and>
   ((\<forall>g\<in>set groups. integer_corners (fst g)) \<longrightarrow>
      hits groups x y = filter (\<lambda>g. contains_point (fst g) x y) groups) \<and>
   (event \<noteq> EVENT_LBUTTONDOWN \<longrightarrow> mouse_callback lower event x y flags (groups, img) io = io)"
proof -
  have "\<forall>g\<in>set groups. contains_point (fst g) x y \<longrightarrow> g \<in> set (hits groups x y)"
    by (simp add: hits_def contains_point_trunc)
  moreover have "hits groups x y = filter (\<lambda>g. contains_point (fst g) x y) groups"
    if "\<forall>g\<in>set groups. integer_corners (fst g)"
    unfolding hits_def using that by (intro filter_cong refl) (simp add: integer_corners_trunc)
  ultimately show ?thesis
    by (simp add: mouse_callback_def click_loop_hits)
qed

theorem mouse_callback_copies_every_hit_witness:
  "hits [(RBox (0.5, 0.5) (10.5, 0.5) (10.5, 10.5) (0.5, 10.5), ''One''),
         (RBox (30, 3) (50, 3) (50, 20) (30, 20), ''Two'')] 35 5 =
     [(RBox (30, 3) (50, 3) (50, 20) (30, 20), ''Two'')] \<and>
   (\<forall>lower. clipboard (mouse_callback lower EVENT_LBUTTONDOWN 35 5 0
       ([(RBox (0.5, 0.5) (10.5, 0.5) (10.5, 10.5) (0.5, 10.5), ''One''),
         (RBox (30, 3) (50, 3) (50, 20) (30, 20), ''Two'')], ())
       \<lparr>clipboard = ''old'', printed = []\<rparr>) = lower ''Two'') \<and>
   hits [(RBox (0.5, 0.5) (10.5, 0.5) (10.5, 10.5) (0.5, 10.5), ''One'')] 35 5 = [] \<and>
   (\<forall>lower. mouse_callback lower EVENT_LBUTTONDOWN 35 5 0
       ([(RBox (0.5, 0.5) (10.5, 0.5) (10.5, 10.5) (0.5, 10.5), ''One'')], ())
       \<lparr>clipboard = ''old'', printed = []\<rparr> = \<lparr>clipboard = ''old'', printed = []\<rparr>) \<and>
   contains_point (RBox (0.5, 0.5) (10.5, 0.5) (10.5, 10.5) (0.5, 10.5)) 1 10 \<and>
   (RBox (0.5, 0.5) (10.5, 0.5) (10.5, 10.5) (0.5, 10.5), ''One'') \<in>
     set (hits [(RBox (0.5, 0.5) (10.5, 0.5) (10.5, 10.5) (0.5, 10.5), ''One'')] 1 10) \<and>
   hits [(RBox (0.5, 0.5) (10.5, 0.5) (10.5, 10.5) (0.5, 10.5), ''One'')] 0 0 =
     [(RBox (0.5, 0.5) (10.5, 0.5) (10.5, 10.5) (0.5, 10.5), ''One'')] \<and>
   \<not> contains_point (RBox (0.5, 0.5) (10.5, 0.5) (10.5, 10.5) (0.5, 10.5)) 0 0 \<and>
   integer_corners (RBox (30, 3) (50, 3) (50, 20) (30, 20)) \<and>
   hits [(RBox (30, 3) (50, 3) (50, 20) (30, 20), ''Two'')] 50 20 =
     filter (\<lambda>g. contains_point (fst g) 50 20) [(RBox (30, 3) (50, 3) (50, 20) (30, 20), ''Two'')] \<and>
   2 \<noteq> EVENT_LBUTTONDOWN \<and>
   (\<forall>lower. mouse_callback lower 2 5 5 0
       ([(RBox (0.5, 0.5) (10.5, 0.5) (10.5, 10.5) (0.5, 10.5), ''One'')], ())
       \<lparr>clipboard = ''old'', printed = []\<rparr> = \<lparr>clipboard = ''old'', printed = []\<rparr>)"
proof -
  let ?one = "(RBox (0.5, 0.5) (10.5, 0.5) (10.5, 10.5) (0.5, 10.5), ''One'')"
  let ?two = "(RBox (30, 3) (50, 3) (50, 20) (30, 20), ''Two'')"
  let ?io = "\<lparr>clipboard = ''old'', printed = []\<rparr>"
  have h2: "hits [?one, ?two] 35 5 = [?two]"
    by (simp add: hits_def inside_def trunc_box_def py_int_def)
  have h0: "hits [?one] 35 5 = []"
    by (simp add: hits_def inside_def trunc_box_def py_int_def)
  have cp: "contains_point (fst ?one) 1 10" by (simp add: contains_point_def)
  have tr: "hits [?one] 0 0 = [?one]"
    by (simp add: hits_def inside_def trunc_box_def py_int_def)
  have ntr: "\<not> contains_point (RBox (0.5, 0.5) (10.5, 0.5) (10.5, 10.5) (0.5, 10.5)) 0 0"
    by (simp add: contains_point_def)
  have ic: "\<forall>g\<in>set [?two]. integer_corners (fst g)" by (simp add: integer_corners_def)
  have ev: "2 \<noteq> EVENT_LBUTTONDOWN" by (simp add: EVENT_LBUTTONDOWN_def)
  have a: "clipboard (mouse_callback lower EVENT_LBUTTONDOWN 35 5 0 ([?one, ?two], ()) ?io) =
      lower ''Two''" for lower
    using mouse_callback_copies_every_hit [of lower 35 5 0 "[?one, ?two]" "()" ?io ?two] h2
    by simp
  have b: "mouse_callback lower EVENT_LBUTTONDOWN 35 5 0 ([?one], ()) ?io = ?io" for lower
    using mouse_callback_copies_every_hit [of lower 35 5 0 "[?one]" "()" ?io] h0 by blast
  have c: "?one \<in> set (hits [?one] 1 10)"
    using mouse_callback_copies_every_hit [of id 1 10 0 "[?one]" "()" ?io] cp by simp
  have d: "hits [?two] 50 20 = filter (\<lambda>g. contains_point (fst g) 50 20) [?two]"
    using mouse_callback_copies_every_hit [of id 50 20 0 "[?two]" "()" ?io] ic by blast
  have e: "mouse_callback lower 2 5 5 0 ([?one], ()) ?io = ?io" for lower
    using mouse_callback_copies_every_hit [of lower 5 5 0 "[?one]" "()" ?io _ 2] ev by blast
  from ic have ic': "integer_corners (RBox (30, 3) (50, 3) (50, 20) (30, 20))" by simp
  from cp have cp': "contains_point (RBox (0.5, 0.5) (10.5, 0.5) (10.5, 10.5) (0.5, 10.5)) 1 10"
    by simp
  from h2 a h0 b cp' c tr ntr ic' d ev e show ?thesis by blast
qed

section \<open>Texts through line grouping\<close>

lemma join_sp_snoc: "ts \<noteq> [] \<Longrightarrow> join_sp (ts @ [t]) = join_sp ts @ '' '' @ t"
  by (induction ts rule: join_sp.induct) auto

lemma words_from_space:
  "words_from w (a @ CHR '' '' # b) = words_from w a @ words_from [] b"
  by (induction a arbitrary: w) auto

lemma words_of_space: "words_of (a @ '' '' @ b) = words_of a @ words_of b"
  by (simp add: words_of_def words_from_space)

lemma words_of_join_sp: "words_of (join_sp ts) = all_words ts"
proof (induction ts rule: join_sp.induct)
  case 1
  show ?case by (simp add: all_words_def words_of_def)
next
  case (2 t)
  show ?case by (simp add: all_words_def)
next
  case (3 t u ts)
  then show ?case using words_of_space [of t "join_sp (u # ts)"] by (simp add: all_words_def)
qed

lemma group_loop_segments:
  assumes "map snd acc = map join_sp segs0" and "[] \<notin> set segs0"
  shows "\<exists>segs. [] \<notin> set segs \<and> concat segs = concat segs0 @ map (\<lambda>d. fst (snd d)) ds \<and>
           map snd (group_loop acc ds xt yt ft) = map join_sp segs"
  using assms
proof (induction ds arbitrary: acc segs0)
  case Nil
  then show ?case by auto
next
  case (Cons d ds)
  show ?case
  proof (cases "acc \<noteq> [] \<and> is_nearby (fst (last acc)) (fst d) xt yt ft")
    case True
    then have ne: "acc \<noteq> []" and near: "is_nearby (fst (last acc)) (fst d) xt yt ft"
      by simp_all
    from ne Cons.prems(1) have ne0: "segs0 \<noteq> []" by auto
    let ?segs = "butlast segs0 @ [last segs0 @ [fst (snd d)]]"
    let ?acc = "butlast acc @
       [(merge_boxes (fst (last acc)) (fst d), snd (last acc) @ '' '' @ fst (snd d))]"
    from ne0 Cons.prems(2) have lne: "last segs0 \<noteq> []" by (metis last_in_set)
    have "snd (last acc) = last (map snd acc)" using ne by (simp add: last_map)
    also have "\<dots> = join_sp (last segs0)" using ne0 Cons.prems(1) by (simp add: last_map)
    finally have lst: "snd (last acc) = join_sp (last segs0)" .
    have "map snd (butlast acc) = map join_sp (butlast segs0)"
      using arg_cong [OF Cons.prems(1), of butlast] by (simp add: map_butlast)
    then have 1: "map snd ?acc = map join_sp ?segs"
      using lst lne by (simp add: join_sp_snoc)
    have 2: "[] \<notin> set ?segs" using Cons.prems(2) by (auto dest: in_set_butlastD)
    have "concat segs0 = concat (butlast segs0) @ last segs0"
      using ne0 by (metis append_butlast_last_id concat.simps(1,2) concat_append append_Nil2)
    then have 3: "concat ?segs = concat segs0 @ [fst (snd d)]" by simp
    from Cons.IH [OF 1 2] 3 show ?thesis
      by (simp only: group_loop_merge [OF ne near]) simp
  next
    case False
    then have new: "acc = [] \<or> \<not> is_nearby (fst (last acc)) (fst d) xt yt ft" by simp
    let ?segs = "segs0 @ [[fst (snd d)]]"
    have 1: "map snd (acc @ [(fst d, fst (snd d))]) = map join_sp ?segs"
      using Cons.prems(1) by simp
    have 2: "[] \<notin> set ?segs" using Cons.prems(2) by simp
    from Cons.IH [OF 1 2] show ?thesis
      by (simp only: group_loop_new [OF new]) simp
  qed
qed

lemma group_text_boxes_segments:
  "\<exists>segs. [] \<notin> set segs \<and>
      concat segs = map (\<lambda>d. fst (snd d)) (fst (group_text_boxes ds xt yt ft)) \<and>
      map snd (snd (group_text_boxes ds xt yt ft)) = map join_sp segs"
  using group_loop_segments [of "[]" "[]" "sort_key sort_key_of ds" xt yt ft]
  by (simp add: group_text_boxes_def Let_def)

lemma all_words_concat: "all_words (concat segs) = all_words (map join_sp segs)"
  by (induction segs) (simp_all add: all_words_def words_of_join_sp [unfolded all_words_def])

lemma mset_all_words_perm:
  "mset ts = mset us \<Longrightarrow> mset (all_words ts) = mset (all_words us)"
proof -
  assume "mset ts = mset us"
  then have "mset (map (\<lambda>t. mset (words_of t)) ts) = mset (map (\<lambda>t. mset (words_of t)) us)"
    by (metis mset_map)
  then have "sum_list (map (\<lambda>t. mset (words_of t)) ts) = sum_list (map (\<lambda>t. mset (words_of t)) us)"
    by (metis sum_mset_sum_list)
  then show ?thesis by (simp add: all_words_def mset_concat comp_def)
qed

text \<open>
  C8: for every list of detections and all thresholds, the texts of the sorted
  detections split into consecutive non-empty runs such that the texts of the returned
  groups are exactly these runs, each joined by single spaces in merge order: every
  detection's text goes into exactly one group, none is dropped or duplicated.  Hence the
  words of the groups are the words of the detections (in sorted order), the same
  multiset as the words of the input, and the total word count is unchanged.
\<close>

theorem group_text_boxes_keeps_words:
  "(\<exists>segs. [] \<notin> set segs \<and>
      concat segs = map (\<lambda>d. fst (snd d)) (fst (group_text_boxes ds xt yt ft)) \<and>
      map snd (snd (group_text_boxes ds xt yt ft)) = map join_sp segs) \<and>
   all_words (map snd (snd (group_text_boxes ds xt yt ft))) =
     all_words (map (\<lambda>d. fst (snd d)) (fst (group_text_boxes ds xt yt ft))) \<and>
   mset (all_words (map snd (snd (group_text_boxes ds xt yt ft)))) =
     mset (all_words (map (\<lambda>d. fst (snd d)) ds)) \<and>
   length (all_words (map snd (snd (group_text_boxes ds xt yt ft)))) =
     length (all_words (map (\<lambda>d. fst (snd d)) ds))"
proof -
  from group_text_boxes_segments [of ds xt yt ft] obtain segs where
    segs: "concat segs = map (\<lambda>d. fst (snd d)) (fst (group_text_boxes ds xt yt ft))"
      "map snd (snd (group_text_boxes ds xt yt ft)) = map join_sp segs"
    by blast
  have eq: "all_words (map snd (snd (group_text_boxes ds xt yt ft))) =
     all_words (map (\<lambda>d. fst (snd d)) (fst (group_text_boxes ds xt yt ft)))"
    using all_words_concat [of segs] segs by simp
  have "mset (map (\<lambda>d. fst (snd d)) (fst (group_text_boxes ds xt yt ft))) =
      mset (map (\<lambda>d. fst (snd d)) ds)"
    by (simp add: group_text_boxes_def Let_def)
  from mset_all_words_perm [OF this] eq
  have ms: "mset (all_words (map snd (snd (group_text_boxes ds xt yt ft)))) =
     mset (all_words (map (\<lambda>d. fst (snd d)) ds))" by simp
  from ms have "length (all_words (map snd (snd (group_text_boxes ds xt yt ft)))) =
     length (all_words (map (\<lambda>d. fst (snd d)) ds))"
    by (rule mset_eq_length)
  with group_text_boxes_segments [of ds xt yt ft] eq ms show ?thesis by blast
qed

section \<open>Line grouping on the store\<close>

lemma group_loop_st_merge:
  "gt \<noteq> [] \<Longrightarrow> is_nearby (fst (h ! last gt)) (fst d) xt yt ft \<Longrightarrow>
   group_loop_st h gt (d # ds) xt yt ft =
     group_loop_st
       (h[last gt := (merge_boxes (fst (h ! last gt)) (fst d),
                      snd (h ! last gt) @ '' '' @ fst (snd d))]) gt ds xt yt ft"
  by (simp add: Let_def)

lemma group_loop_st_new:
  "gt = [] \<or> \<not> is_nearby (fst (h ! last gt)) (fst d) xt yt ft \<Longrightarrow>
   group_loop_st h gt (d # ds) xt yt ft =
     group_loop_st (h @ [(fst d, fst (snd d))]) (gt @ [length h]) ds xt yt ft"
  by (auto simp: Let_def)

lemma map_nth_update_last:
  assumes "gt \<noteq> []" and "distinct gt" and "last gt < length h"
  shows "map (nth (h[last gt := v])) gt = butlast (map (nth h) gt) @ [v]"
proof -
  from assms(1) have gt: "gt = butlast gt @ [last gt]" by simp
  from assms(1,2) have "last gt \<notin> set (butlast gt)"
    by (metis gt distinct_append disjoint_iff list.set_intros(1))
  then have "\<And>x. x \<in> set (butlast gt) \<Longrightarrow> h[last gt := v] ! x = h ! x"
    by (metis nth_list_update_neq)
  then have "map (nth (h[last gt := v])) (butlast gt) = map (nth h) (butlast gt)"
    by simp
  moreover have "h[last gt := v] ! last gt = v" using assms(3) by simp
  ultimately have "map (nth (h[last gt := v])) (butlast gt @ [last gt]) =
      map (nth h) (butlast gt) @ [v]" by simp
  with gt show ?thesis by (simp add: map_butlast)
qed

lemma map_nth_append_old:
  "\<forall>a\<in>set as. a < length h \<Longrightarrow> map (nth (h @ hs)) as = map (nth h) as"
  by (simp add: nth_append)

lemma group_loop_st_props:
  assumes "\<forall>a\<in>set gt. n \<le> a \<and> a < length h" and "distinct gt" and "n \<le> length h"
    and "group_loop_st h gt ds xt yt ft = (h', out)"
  shows "take n h' = take n h \<and> length h \<le> length h' \<and>
         (\<forall>a\<in>set out. n \<le> a \<and> a < length h') \<and> distinct out \<and>
         map (nth h') out = group_loop (map (nth h) gt) ds xt yt ft"
  using assms
proof (induction ds arbitrary: h gt)
  case Nil
  then show ?case by auto
next
  case (Cons d ds)
  show ?case
  proof (cases "gt \<noteq> [] \<and> is_nearby (fst (h ! last gt)) (fst d) xt yt ft")
    case True
    then have ne: "gt \<noteq> []" and near: "is_nearby (fst (h ! last gt)) (fst d) xt yt ft"
      by simp_all
    let ?v = "(merge_boxes (fst (h ! last gt)) (fst d), snd (h ! last gt) @ '' '' @ fst (snd d))"
    let ?h = "h[last gt := ?v]"
    from ne Cons.prems(1) have lst: "n \<le> last gt" "last gt < length h" by simp_all
    have run: "group_loop_st ?h gt ds xt yt ft = (h', out)"
      using Cons.prems(4) by (simp only: group_loop_st_merge [OF ne near])
    have valid: "\<forall>a\<in>set gt. n \<le> a \<and> a < length ?h" using Cons.prems(1) by simp
    have len: "n \<le> length ?h" using Cons.prems(3) by simp
    note IH = Cons.IH [OF valid Cons.prems(2) len run]
    have vals: "map (nth ?h) gt = butlast (map (nth h) gt) @ [?v]"
      by (rule map_nth_update_last [OF ne Cons.prems(2) lst(2)])
    have lastv: "last (map (nth h) gt) = h ! last gt" using ne by (simp add: last_map)
    have ne': "map (nth h) gt \<noteq> []" using ne by simp
    have near': "is_nearby (fst (last (map (nth h) gt))) (fst d) xt yt ft"
      using near by (simp only: lastv)
    have "group_loop (map (nth h) gt) (d # ds) xt yt ft = group_loop (map (nth ?h) gt) ds xt yt ft"
      by (simp only: group_loop_merge [OF ne' near'] vals lastv)
    moreover have "take n ?h = take n h" using lst(1) by simp
    ultimately show ?thesis using IH by simp
  next
    case False
    then have new: "gt = [] \<or> \<not> is_nearby (fst (h ! last gt)) (fst d) xt yt ft" by simp
    let ?h = "h @ [(fst d, fst (snd d))]"
    let ?gt = "gt @ [length h]"
    have run: "group_loop_st ?h ?gt ds xt yt ft = (h', out)"
      using Cons.prems(4) by (simp only: group_loop_st_new [OF new])
    have valid: "\<forall>a\<in>set ?gt. n \<le> a \<and> a < length ?h"
      using Cons.prems(1,3) by auto
    have dist: "distinct ?gt" using Cons.prems(1,2) by auto
    have len: "n \<le> length ?h" using Cons.prems(3) by simp
    note IH = Cons.IH [OF valid dist len run]
    have old: "map (nth ?h) gt = map (nth h) gt"
      using Cons.prems(1) by (simp add: nth_append)
    have vals: "map (nth ?h) ?gt = map (nth h) gt @ [(fst d, fst (snd d))]"
      using old by simp
    have new': "map (nth h) gt = [] \<or>
        \<not> is_nearby (fst (last (map (nth h) gt))) (fst d) xt yt ft"
      using new by (cases "gt = []") (simp_all add: last_map)
    have "group_loop (map (nth h) gt) (d # ds) xt yt ft = group_loop (map (nth ?h) ?gt) ds xt yt ft"
      by (simp only: group_loop_new [OF new'] vals)
    moreover have "take n ?h = take n h" using Cons.prems(3) by simp
    ultimately show ?thesis using IH by simp
  qed
qed

lemma group_text_boxes_st_props:
  assumes "group_text_boxes_st h ds xt yt ft = (ds', h', out)"
  shows "ds' = fst (group_text_boxes ds xt yt ft) \<and> take (length h) h' = h \<and>
         length h \<le> length h' \<and> (\<forall>a\<in>set out. length h \<le> a \<and> a < length h') \<and>
         distinct out \<and> map (nth h') out = snd (group_text_boxes ds xt yt ft)"
proof -
  from assms have ds': "ds' = sort_key sort_key_of ds"
    and run: "group_loop_st h [] (sort_key sort_key_of ds) xt yt ft = (h', out)"
    by (auto simp: group_text_boxes_st_def Let_def split: prod.splits)
  from group_loop_st_props [where gt = "[]" and n = "length h", OF _ _ _ run] ds'
  show ?thesis by (simp add: group_text_boxes_def Let_def)
qed

section \<open>Paragraph grouping on the store\<close>

lemma scan_boxes_Cons:
  "scan_boxes (g # boxes) box1 text1 yt xt =
     (if is_nearby_parag (fst g) box1 yt xt
      then Some ((merge_boxes (fst g) box1, snd g @ '' '' @ text1) # boxes)
      else map_option (Cons g) (scan_boxes boxes box1 text1 yt xt))"
  by (cases g) simp

lemma parag_loop_Cons:
  "parag_loop boxes (g # rest) yt xt =
     (case scan_boxes boxes (fst g) (snd g) yt xt of
        Some boxes' \<Rightarrow> parag_loop boxes' rest yt xt
      | None \<Rightarrow> parag_loop (boxes @ [g]) rest yt xt)"
  by (cases g) (simp split: option.splits)

lemma scan_boxes_st_None:
  "scan_boxes_st h boxes box1 text1 yt xt = None \<Longrightarrow>
   scan_boxes (map (nth h) boxes) box1 text1 yt xt = None"
  by (induction boxes) (auto simp: scan_boxes_Cons Let_def split: if_splits)

lemma scan_boxes_st_Some:
  "scan_boxes_st h boxes box1 text1 yt xt = Some h' \<Longrightarrow> \<exists>p v. p \<in> set boxes \<and> h' = h[p := v]"
  by (induction boxes) (auto simp: Let_def split: if_splits)

lemma scan_boxes_st_link:
  assumes "distinct boxes" and "\<forall>p\<in>set boxes. p < length h"
    and "scan_boxes_st h boxes box1 text1 yt xt = Some h'"
  shows "scan_boxes (map (nth h) boxes) box1 text1 yt xt = Some (map (nth h') boxes)"
  using assms
proof (induction boxes)
  case Nil
  then show ?case by simp
next
  case (Cons p boxes)
  from Cons.prems(1) have p: "p \<notin> set boxes" and dist: "distinct boxes" by simp_all
  from Cons.prems(2) have plt: "p < length h" and valid: "\<forall>p\<in>set boxes. p < length h"
    by simp_all
  show ?case
  proof (cases "is_nearby_parag (fst (h ! p)) box1 yt xt")
    case True
    with Cons.prems(3) have h': "h' = h[p := (merge_boxes (fst (h ! p)) box1,
        snd (h ! p) @ '' '' @ text1)]" by (simp add: Let_def)
    from p have "\<And>x. x \<in> set boxes \<Longrightarrow> h' ! x = h ! x"
      unfolding h' by (metis nth_list_update_neq)
    then have "map (nth h') boxes = map (nth h) boxes" by simp
    with True plt show ?thesis by (simp add: scan_boxes_Cons h')
  next
    case False
    with Cons.prems(3) have run: "scan_boxes_st h boxes box1 text1 yt xt = Some h'"
      by (simp add: Let_def)
    from scan_boxes_st_Some [OF run] obtain q v where q: "q \<in> set boxes" and h': "h' = h[q := v]"
      by blast
    from q p have "h' ! p = h ! p" unfolding h' by (metis nth_list_update_neq)
    with Cons.IH [OF dist valid run] False show ?thesis by (simp add: scan_boxes_Cons)
  qed
qed

lemma parag_loop_st_Some:
  "scan_boxes_st h boxes (fst (h ! a)) (snd (h ! a)) yt xt = Some h1 \<Longrightarrow>
   parag_loop_st h boxes (a # rest) yt xt = parag_loop_st h1 boxes rest yt xt"
  by (simp add: Let_def)

lemma parag_loop_st_None:
  "scan_boxes_st h boxes (fst (h ! a)) (snd (h ! a)) yt xt = None \<Longrightarrow>
   parag_loop_st h boxes (a # rest) yt xt =
     parag_loop_st (h @ [(fst (h ! a), snd (h ! a))]) (boxes @ [length h]) rest yt xt"
  by (simp add: Let_def)

lemma parag_loop_st_frame:
  assumes "parag_loop_st h boxes rest yt xt = (h', out)"
    and "\<forall>p\<in>set boxes. p < length h" and "distinct boxes"
  shows "length h \<le> length h' \<and> (\<forall>a<length h. a \<notin> set boxes \<longrightarrow> h' ! a = h ! a) \<and>
         (\<exists>new. out = boxes @ new \<and> (\<forall>a\<in>set new. length h \<le> a)) \<and>
         (\<forall>a\<in>set out. a < length h') \<and> distinct out"
  using assms
proof (induction rest arbitrary: h boxes)
  case Nil
  then show ?case by auto
next
  case (Cons a rest)
  show ?case
  proof (cases "scan_boxes_st h boxes (fst (h ! a)) (snd (h ! a)) yt xt")
    case (Some h1)
    from scan_boxes_st_Some [OF Some] obtain q v where q: "q \<in> set boxes" and h1: "h1 = h[q := v]"
      by blast
    have run: "parag_loop_st h1 boxes rest yt xt = (h', out)"
      using Cons.prems(1) by (simp only: parag_loop_st_Some [OF Some])
    have valid: "\<forall>p\<in>set boxes. p < length h1" using Cons.prems(2) by (simp add: h1)
    note IH = Cons.IH [OF run valid Cons.prems(3)]
    have "\<forall>a<length h. a \<notin> set boxes \<longrightarrow> h1 ! a = h ! a"
      using q unfolding h1 by (metis nth_list_update_neq)
    with IH show ?thesis by (simp add: h1)
  next
    case None
    let ?h = "h @ [(fst (h ! a), snd (h ! a))]"
    let ?boxes = "boxes @ [length h]"
    have run: "parag_loop_st ?h ?boxes rest yt xt = (h', out)"
      using Cons.prems(1) by (simp only: parag_loop_st_None [OF None])
    have valid: "\<forall>p\<in>set ?boxes. p < length ?h" using Cons.prems(2) by auto
    have dist: "distinct ?boxes" using Cons.prems(2,3) by auto
    note IH = Cons.IH [OF run valid dist]
    from IH have len: "length h \<le> length h'" by simp
    from IH have fr: "\<forall>a<length h. a \<notin> set boxes \<longrightarrow> h' ! a = h ! a"
      by (auto simp: nth_append)
    from IH obtain new where new: "out = ?boxes @ new" "\<forall>a\<in>set new. length ?h \<le> a"
      by blast
    then have "out = boxes @ (length h # new) \<and> (\<forall>a\<in>set (length h # new). length h \<le> a)"
      by auto
    then have ex: "\<exists>new. out = boxes @ new \<and> (\<forall>a\<in>set new. length h \<le> a)" by blast
    from len fr ex IH show ?thesis by blast
  qed
qed

lemma parag_loop_st_link:
  assumes "parag_loop_st h boxes rest yt xt = (h', out)"
    and "\<forall>p\<in>set boxes. p < length h" and "distinct boxes"
    and "\<forall>a\<in>set rest. a < length h \<and> a \<notin> set boxes"
  shows "map (nth h') out = parag_loop (map (nth h) boxes) (map (nth h) rest) yt xt"
  using assms
proof (induction rest arbitrary: h boxes)
  case Nil
  then show ?case by auto
next
  case (Cons a rest)
  from Cons.prems(4) have rest: "\<forall>a\<in>set rest. a < length h \<and> a \<notin> set boxes" by simp
  show ?case
  proof (cases "scan_boxes_st h boxes (fst (h ! a)) (snd (h ! a)) yt xt")
    case (Some h1)
    from scan_boxes_st_Some [OF Some] obtain q v where q: "q \<in> set boxes" and h1: "h1 = h[q := v]"
      by blast
    have run: "parag_loop_st h1 boxes rest yt xt = (h', out)"
      using Cons.prems(1) by (simp only: parag_loop_st_Some [OF Some])
    have valid: "\<forall>p\<in>set boxes. p < length h1" using Cons.prems(2) by (simp add: h1)
    have rest1: "\<forall>a\<in>set rest. a < length h1 \<and> a \<notin> set boxes" using rest by (simp add: h1)
    note IH = Cons.IH [OF run valid Cons.prems(3) rest1]
    from q rest have "\<And>x. x \<in> set rest \<Longrightarrow> h1 ! x = h ! x"
      unfolding h1 by (metis nth_list_update_neq)
    then have same: "map (nth h1) rest = map (nth h) rest" by simp
    from scan_boxes_st_link [OF Cons.prems(3) Cons.prems(2) Some]
    have "parag_loop (map (nth h) boxes) (map (nth h) (a # rest)) yt xt =
        parag_loop (map (nth h1) boxes) (map (nth h) rest) yt xt"
      by (simp add: parag_loop_Cons)
    with IH same show ?thesis by simp
  next
    case None
    let ?c = "(fst (h ! a), snd (h ! a))"
    let ?h = "h @ [?c]"
    let ?boxes = "boxes @ [length h]"
    have run: "parag_loop_st ?h ?boxes rest yt xt = (h', out)"
      using Cons.prems(1) by (simp only: parag_loop_st_None [OF None])
    have valid: "\<forall>p\<in>set ?boxes. p < length ?h" using Cons.prems(2) by auto
    have dist: "distinct ?boxes" using Cons.prems(2,3) by auto
    have rest1: "\<forall>a\<in>set rest. a < length ?h \<and> a \<notin> set ?boxes" using rest by auto
    note IH = Cons.IH [OF run valid dist rest1]
    have b: "map (nth ?h) ?boxes = map (nth h) boxes @ [h ! a]"
      using Cons.prems(2) by (simp add: nth_append)
    have r: "map (nth ?h) rest = map (nth h) rest" using rest by (simp add: nth_append)
    from scan_boxes_st_None [OF None]
    have step: "parag_loop (map (nth h) boxes) (map (nth h) (a # rest)) yt xt =
        parag_loop (map (nth h) boxes @ [h ! a]) (map (nth h) rest) yt xt"
      by (simp add: parag_loop_Cons)
    have "map (nth h') out = parag_loop (map (nth ?h) ?boxes) (map (nth ?h) rest) yt xt"
      by (rule IH)
    also have "\<dots> = parag_loop (map (nth h) boxes @ [h ! a]) (map (nth h) rest) yt xt"
      by (simp only: b r)
    finally show ?thesis by (simp only: step)
  qed
qed

lemma check_paragraph_st_frame:
  assumes "g < length h" and "check_paragraph_st h (g # rest) yt xt = r"
  shows "\<exists>h' new. r = Inr (h', g # new) \<and> length h \<le> length h' \<and>
           (\<forall>a<length h. a \<noteq> g \<longrightarrow> h' ! a = h ! a) \<and>
           (\<forall>a\<in>set new. length h \<le> a \<and> a < length h') \<and> g \<notin> set new \<and> distinct new"
proof -
  obtain h' out where run: "parag_loop_st h [g] rest yt xt = (h', out)" by force
  from parag_loop_st_frame [OF run] assms(1)
  obtain new where "out = g # new" "\<forall>a\<in>set new. length h \<le> a" "length h \<le> length h'"
    "\<forall>a<length h. a \<noteq> g \<longrightarrow> h' ! a = h ! a" "\<forall>a\<in>set out. a < length h'" "distinct out"
    by auto
  with assms(2) run show ?thesis by (auto simp: check_paragraph_st_def)
qed

lemma check_paragraph_st_link:
  assumes "\<forall>a\<in>set gs. a < length h" and "distinct gs"
  shows "read_groups (check_paragraph_st h gs yt xt) = check_paragraph (map (nth h) gs) yt xt"
proof (cases gs)
  case Nil
  then show ?thesis by (simp add: read_groups_def check_paragraph_st_def check_paragraph_def)
next
  case (Cons g rest)
  obtain h' out where run: "parag_loop_st h [g] rest yt xt = (h', out)" by force
  from assms Cons have "\<forall>a\<in>set rest. a < length h \<and> a \<notin> set [g]" and "g < length h" by auto
  with parag_loop_st_link [OF run]
  have "map (nth h') out = parag_loop (map (nth h) [g]) (map (nth h) rest) yt xt" by simp
  with run Cons show ?thesis
    by (simp add: read_groups_def check_paragraph_st_def check_paragraph_def)
qed

lemma pipeline_st_link:
  "fst (pipeline_st h ds) = sort_key sort_key_of ds \<and>
   read_groups (snd (pipeline_st h ds)) = pipeline ds"
proof -
  obtain ds' hm gt where g: "group_text_boxes_st h ds 50 90 10 = (ds', hm, gt)"
    by (cases "group_text_boxes_st h ds 50 90 10") auto
  from group_text_boxes_st_props [OF g]
  have ds': "ds' = sort_key sort_key_of ds" and valid: "\<forall>a\<in>set gt. a < length hm"
    and dist: "distinct gt" and vals: "map (nth hm) gt = snd (group_text_boxes ds 50 90 10)"
    by (simp_all add: group_text_boxes_def Let_def)
  from check_paragraph_st_link [OF valid dist, of 5 47] vals g ds'
  show ?thesis
    by (simp add: pipeline_st_def pipeline_def check_paragraph_default_def
        group_text_boxes_default_def)
qed

lemma pipeline_st_frame:
  assumes "pipeline_st h ds = (ds', Inr (h', out))"
  shows "take (length h) h' = h \<and> (\<forall>a\<in>set out. a < length h')"
proof -
  obtain ds1 hm gt where g: "group_text_boxes_st h ds 50 90 10 = (ds1, hm, gt)"
    by (cases "group_text_boxes_st h ds 50 90 10") auto
  with assms have cp: "check_paragraph_st hm gt 5 47 = Inr (h', out)"
    by (simp add: pipeline_st_def)
  from group_text_boxes_st_props [OF g]
  have tk: "take (length h) hm = h" and len: "length h \<le> length hm"
    and fresh: "\<forall>a\<in>set gt. length h \<le> a \<and> a < length hm" by simp_all
  from cp obtain g0 rest where gt: "gt = g0 # rest"
    by (cases gt) (auto simp: check_paragraph_st_def)
  from fresh gt have g0: "g0 < length hm" "length h \<le> g0" by simp_all
  from check_paragraph_st_frame [OF g0(1) cp [unfolded gt]]
  obtain new where out: "out = g0 # new" and len': "length hm \<le> length h'"
    and fr: "\<forall>a<length hm. a \<noteq> g0 \<longrightarrow> h' ! a = hm ! a"
    and new: "\<forall>a\<in>set new. length hm \<le> a \<and> a < length h'"
    by auto
  have "take (length h) h' = take (length h) hm"
  proof (rule nth_equalityI)
    show "length (take (length h) h') = length (take (length h) hm)"
      using len len' by simp
  next
    fix i assume "i < length (take (length h) h')"
    then have i: "i < length h" by simp
    with len g0(2) fr have "h' ! i = hm ! i" by simp
    with i show "take (length h) h' ! i = take (length h) hm ! i" by simp
  qed
  with tk out new g0 len' show ?thesis by auto
qed

lemma sort_key_idem: "sort_key f (sort_key f xs) = sort_key f xs"
  by (rule sort_key_id_if_sorted) (rule sorted_sort_key)

lemma pipeline_sorted: "pipeline (sort_key sort_key_of ds) = pipeline ds"
  by (simp add: pipeline_def group_text_boxes_default_def group_text_boxes_def Let_def
      sort_key_idem)

section \<open>Side effects of the grouping calls\<close>

text \<open>
  Two detections handed over out of order come back reordered in the caller's list; and
  a second line that continues the first paragraph is merged into the first input cell
  itself (address 0), which is also the cell the call returns.
\<close>

theorem grouping_side_effect_counterexample:
  "group_text_boxes_st []
     [(Box (45, 0) (80, 0) (80, 20) (45, 20), ''latte'', 800::nat),
      (Box (0, 0) (40, 0) (40, 20) (0, 20), ''cafe'', 900::nat)] 50 90 10 =
     ([(Box (0, 0) (40, 0) (40, 20) (0, 20), ''cafe'', 900::nat),
       (Box (45, 0) (80, 0) (80, 20) (45, 20), ''latte'', 800::nat)],
      [(Box (0, 0) (80, 0) (80, 20) (0, 20), ''cafe latte'')], [0]) \<and>
   \<not> lines_side_effect_free []
     [(Box (45, 0) (80, 0) (80, 20) (45, 20), ''latte'', 800::nat),
      (Box (0, 0) (40, 0) (40, 20) (0, 20), ''cafe'', 900::nat)] 50 90 10 \<and>
   check_paragraph_st
     [(Box (10, 0) (50, 0) (50, 20) (10, 20), ''first line''),
      (Box (12, 23) (60, 23) (60, 43) (12, 43), ''second line'')] [0, 1] 5 47 =
     Inr ([(Box (10, 0) (60, 0) (60, 43) (10, 43), ''first line second line''),
           (Box (12, 23) (60, 23) (60, 43) (12, 43), ''second line'')], [0]) \<and>
   \<not> parag_side_effect_free
     [(Box (10, 0) (50, 0) (50, 20) (10, 20), ''first line''),
      (Box (12, 23) (60, 23) (60, 43) (12, 43), ''second line'')] [0, 1] 5 47"
  by (simp add: lines_side_effect_free_def parag_side_effect_free_def group_text_boxes_st_def
      check_paragraph_st_def sort_key_of_def is_nearby_def is_nearby_parag_def merge_boxes_def
      Let_def)

text \<open>
  C3, amended: \<open>group_text_boxes\<close> sorts the caller's list in place, so the list holds the
  same detections in (y, x) order afterwards, none of them modified; it leaves every
  group cell that existed before the call unmodified, and every group it returns is a
  newly created cell, all distinct.  \<open>check_paragraph\<close>, given a first group that exists,
  returns; it only reads its input list, leaves every cell that existed before the call
  other than the first group of its input unmodified, and every group it returns other
  than the first is a newly created cell, all distinct.
\<close>

theorem grouping_store_effects:
  "(case group_text_boxes_st h ds xt yt ft of
      (ds', h', out) \<Rightarrow>
        ds' = sort_key sort_key_of ds \<and> mset ds' = mset ds \<and> take (length h) h' = h \<and>
        (\<forall>a\<in>set out. length h \<le> a \<and> a < length h') \<and> distinct out) \<and>
   (g < length h \<longrightarrow>
      (\<exists>h' new. check_paragraph_st h (g # rest) yt xt = Inr (h', g # new) \<and>
         (\<forall>a<length h. a \<noteq> g \<longrightarrow> h' ! a = h ! a) \<and> length h \<le> length h' \<and>
         (\<forall>a\<in>set new. length h \<le> a \<and> a < length h') \<and> g \<notin> set new \<and> distinct new))"
proof -
  obtain ds' h' out where run: "group_text_boxes_st h ds xt yt ft = (ds', h', out)"
    by (cases "group_text_boxes_st h ds xt yt ft") auto
  from group_text_boxes_st_props [OF run]
  have "ds' = sort_key sort_key_of ds \<and> mset ds' = mset ds \<and> take (length h) h' = h \<and>
        (\<forall>a\<in>set out. length h \<le> a \<and> a < length h') \<and> distinct out"
    by (simp add: group_text_boxes_def Let_def)
  with run have lines: "case group_text_boxes_st h ds xt yt ft of
      (ds', h', out) \<Rightarrow>
        ds' = sort_key sort_key_of ds \<and> mset ds' = mset ds \<and> take (length h) h' = h \<and>
        (\<forall>a\<in>set out. length h \<le> a \<and> a < length h') \<and> distinct out"
    by simp
  have "\<exists>h' new. check_paragraph_st h (g # rest) yt xt = Inr (h', g # new) \<and>
         (\<forall>a<length h. a \<noteq> g \<longrightarrow> h' ! a = h ! a) \<and> length h \<le> length h' \<and>
         (\<forall>a\<in>set new. length h \<le> a \<and> a < length h') \<and> g \<notin> set new \<and> distinct new"
    if "g < length h"
    using check_paragraph_st_frame [OF that refl, of rest yt xt] by blast
  with lines show ?thesis by blast
qed

theorem grouping_store_effects_witness:
  "(1::nat) < length [(Box (10, 0) (50, 0) (50, 20) (10, 20), ''kept''),
                     (Box (10, 100) (50, 100) (50, 120) (10, 120), ''first''),
                     (Box (12, 123) (60, 123) (60, 143) (12, 143), ''second''),
                     (Box (300, 300) (360, 300) (360, 320) (300, 320), ''third'')] \<and>
   check_paragraph_st
     [(Box (10, 0) (50, 0) (50, 20) (10, 20), ''kept''),
      (Box (10, 100) (50, 100) (50, 120) (10, 120), ''first''),
      (Box (12, 123) (60, 123) (60, 143) (12, 143), ''second''),
      (Box (300, 300) (360, 300) (360, 320) (300, 320), ''third'')] [1, 2, 3] 5 47 =
     Inr ([(Box (10, 0) (50, 0) (50, 20) (10, 20), ''kept''),
           (Box (10, 100) (60, 100) (60, 143) (10, 143), ''first second''),
           (Box (12, 123) (60, 123) (60, 143) (12, 143), ''second''),
           (Box (300, 300) (360, 300) (360, 320) (300, 320), ''third''),
           (Box (300, 300) (360, 300) (360, 320) (300, 320), ''third'')], [1, 4]) \<and>
   (\<exists>h' new. check_paragraph_st
     [(Box (10, 0) (50, 0) (50, 20) (10, 20), ''kept''),
      (Box (10, 100) (50, 100) (50, 120) (10, 120), ''first''),
      (Box (12, 123) (60, 123) (60, 143) (12, 143), ''second''),
      (Box (300, 300) (360, 300) (360, 320) (300, 320), ''third'')] [1, 2, 3] 5 47 =
        Inr (h', 1 # new) \<and>
      h' ! 0 = (Box (10, 0) (50, 0) (50, 20) (10, 20), ''kept'') \<and>
      h' ! 2 = (Box (12, 123) (60, 123) (60, 143) (12, 143), ''second'') \<and>
      1 \<notin> set new)"
proof -
  let ?h = "[(Box (10, 0) (50, 0) (50, 20) (10, 20), ''kept''),
      (Box (10, 100) (50, 100) (50, 120) (10, 120), ''first''),
      (Box (12, 123) (60, 123) (60, 143) (12, 143), ''second''),
      (Box (300, 300) (360, 300) (360, 320) (300, 320), ''third'')] :: cells"
  have lt: "(1::nat) < length ?h" by simp
  have run: "check_paragraph_st ?h [1, 2, 3] 5 47 =
     Inr ([(Box (10, 0) (50, 0) (50, 20) (10, 20), ''kept''),
           (Box (10, 100) (60, 100) (60, 143) (10, 143), ''first second''),
           (Box (12, 123) (60, 123) (60, 143) (12, 143), ''second''),
           (Box (300, 300) (360, 300) (360, 320) (300, 320), ''third''),
           (Box (300, 300) (360, 300) (360, 320) (300, 320), ''third'')], [1, 4])"
    by (simp add: check_paragraph_st_def is_nearby_parag_def merge_boxes_def Let_def)
  from grouping_store_effects [where h = ?h and g = 1 and rest = "[2, 3]" and yt = 5 and xt = 47] lt
  obtain h' new where r: "check_paragraph_st ?h [1, 2, 3] 5 47 = Inr (h', 1 # new)"
    and fr: "\<forall>a<length ?h. a \<noteq> 1 \<longrightarrow> h' ! a = ?h ! a" and new: "1 \<notin> set new"
    by blast
  from fr have "h' ! 0 = ?h ! 0" and "h' ! 2 = ?h ! 2" by simp_all
  with r new have "\<exists>h' new. check_paragraph_st ?h [1, 2, 3] 5 47 = Inr (h', 1 # new) \<and>
      h' ! 0 = (Box (10, 0) (50, 0) (50, 20) (10, 20), ''kept'') \<and>
      h' ! 2 = (Box (12, 123) (60, 123) (60, 143) (12, 143), ''second'') \<and>
      1 \<notin> set new" by auto
  with lt run show ?thesis by blast
qed

section \<open>Determinism of the pipeline\<close>

text \<open>
  C9: the groups that \<open>group_text_boxes\<close> followed by \<open>check_paragraph\<close> return, read from
  the store the run leaves, are a function of the detection list alone: they do not
  depend on the store the run starts from (which cells exist, at which addresses), so
  two runs on equal lists give equal results, an error included.  This also holds when
  the second run is given the list as the first run left it (sorted in place) and the
  store as the first run left it; the second run then leaves the list as it is, returns
  equal groups, and does not disturb the groups the first run returned.
\<close>

theorem pipeline_deterministic:
  "read_groups (snd (pipeline_st h ds)) = pipeline ds \<and>
   read_groups (snd (pipeline_st h ds)) = read_groups (snd (pipeline_st k ds)) \<and>
   fst (pipeline_st h ds) = sort_key sort_key_of ds \<and>
   read_groups (snd (pipeline_st k (fst (pipeline_st h ds)))) = read_groups (snd (pipeline_st h ds)) \<and>
   (pipeline_st h ds = (ds', Inr (h', out)) \<and> pipeline_st h' ds' = (ds'', Inr (h'', out')) \<longrightarrow>
      ds'' = ds' \<and> map (nth h'') out' = map (nth h') out \<and> map (nth h'') out = map (nth h') out)"
proof -
  have link: "fst (pipeline_st h ds) = sort_key sort_key_of ds"
    "read_groups (snd (pipeline_st h ds)) = pipeline ds" for h ds
    using pipeline_st_link [of h ds] by simp_all
  have again: "read_groups (snd (pipeline_st k (fst (pipeline_st h ds)))) =
      read_groups (snd (pipeline_st h ds))"
    by (simp add: link pipeline_sorted)
  have twice: "ds'' = ds' \<and> map (nth h'') out' = map (nth h') out \<and>
      map (nth h'') out = map (nth h') out"
    if 1: "pipeline_st h ds = (ds', Inr (h', out))"
      and 2: "pipeline_st h' ds' = (ds'', Inr (h'', out'))"
  proof -
    from link(1) [of h ds] 1 have ds': "ds' = sort_key sort_key_of ds" by simp
    from link(1) [of h' ds'] 2 have ds'': "ds'' = ds'" by (simp add: ds' sort_key_idem)
    from link(2) [of h ds, symmetric] 1 have v1: "pipeline ds = Inr (map (nth h') out)"
      by (simp add: read_groups_def)
    from link(2) [of h' ds', symmetric] 2 have v2: "pipeline ds' = Inr (map (nth h'') out')"
      by (simp add: read_groups_def)
    from v1 v2 have same: "map (nth h'') out' = map (nth h') out"
      by (simp add: ds' pipeline_sorted)
    from pipeline_st_frame [OF 1] have valid: "\<forall>a\<in>set out. a < length h'" by simp
    from pipeline_st_frame [OF 2] have tk: "take (length h') h'' = h'" by simp
    have "h'' ! a = h' ! a" if "a \<in> set out" for a
    proof -
      from that valid have "a < length h'" by simp
      then have "take (length h') h'' ! a = h'' ! a" by simp
      with tk show ?thesis by simp
    qed
    then have "map (nth h'') out = map (nth h') out" by simp
    with ds'' same show ?thesis by simp
  qed
  from link [of h ds] link(2) [of k ds] again twice show ?thesis by simp
qed

theorem pipeline_deterministic_witness:
  "pipeline_st []
     [(Box (45, 0) (80, 0) (80, 20) (45, 20), ''latte'', 800::nat),
      (Box (0, 0) (40, 0) (40, 20) (0, 20), ''cafe'', 900::nat)] =
     ([(Box (0, 0) (40, 0) (40, 20) (0, 20), ''cafe'', 900::nat),
       (Box (45, 0) (80, 0) (80, 20) (45, 20), ''latte'', 800::nat)],
      Inr ([(Box (0, 0) (80, 0) (80, 20) (0, 20), ''cafe latte'')], [0])) \<and>
   pipeline_st [(Box (0, 0) (80, 0) (80, 20) (0, 20), ''cafe latte'')]
     [(Box (0, 0) (40, 0) (40, 20) (0, 20), ''cafe'', 900::nat),
      (Box (45, 0) (80, 0) (80, 20) (45, 20), ''latte'', 800::nat)] =
     ([(Box (0, 0) (40, 0) (40, 20) (0, 20), ''cafe'', 900::nat),
       (Box (45, 0) (80, 0) (80, 20) (45, 20), ''latte'', 800::nat)],
      Inr ([(Box (0, 0) (80, 0) (80, 20) (0, 20), ''cafe latte''),
            (Box (0, 0) (80, 0) (80, 20) (0, 20), ''cafe latte'')], [1])) \<and>
   map (nth [(Box (0, 0) (80, 0) (80, 20) (0, 20), ''cafe latte''),
             (Box (0, 0) (80, 0) (80, 20) (0, 20), ''cafe latte'')]) [1] =
   map (nth [(Box (0, 0) (80, 0) (80, 20) (0, 20), ''cafe latte'')]) [0]"
proof -
  let ?cafe = "(Box (0, 0) (40, 0) (40, 20) (0, 20), ''cafe'', 900::nat) :: nat detection"
  let ?latte = "(Box (45, 0) (80, 0) (80, 20) (45, 20), ''latte'', 800::nat) :: nat detection"
  let ?g = "(Box (0, 0) (80, 0) (80, 20) (0, 20), ''cafe latte'') :: group"
  have 1: "pipeline_st [] [?latte, ?cafe] = ([?cafe, ?latte], Inr ([?g], [0]))"
    by (simp add: pipeline_st_def group_text_boxes_st_def check_paragraph_st_def sort_key_of_def
        is_nearby_def merge_boxes_def Let_def)
  have 2: "pipeline_st [?g] [?cafe, ?latte] = ([?cafe, ?latte], Inr ([?g, ?g], [1]))"
    by (simp add: pipeline_st_def group_text_boxes_st_def check_paragraph_st_def sort_key_of_def
        is_nearby_def merge_boxes_def Let_def)
  from pipeline_deterministic [where h = "[]" and ds = "[?latte, ?cafe]"
      and ds' = "[?cafe, ?latte]" and h' = "[?g]" and out = "[0]"
      and ds'' = "[?cafe, ?latte]" and h'' = "[?g, ?g]" and out' = "[1]"] 1 2
  have "map (nth [?g, ?g]) [1] = map (nth [?g]) [0]" by blast
  with 1 2 show ?thesis by blast
qed

section \<open>Empty input\<close>

text \<open>
  C1: on the empty list \<open>group_text_boxes\<close> returns the empty list, but \<open>check_paragraph\<close>
  applied to that empty list does not return: its first statement reads
  \<open>grouped_texts[0]\<close> and raises \<open>IndexError\<close>, on values and on the store alike.
\<close>

theorem check_paragraph_empty_raises:
  "snd (group_text_boxes [] x_threshold y_threshold font_threshold) = [] \<and>
   check_paragraph [] parag_y_threshold parag_x_threshold = Inl IndexError \<and>
   check_paragraph_st h [] parag_y_threshold parag_x_threshold = Inl IndexError \<and>
   pipeline [] = Inl IndexError"
  by (simp add: group_text_boxes_def check_paragraph_def pipeline_def
      check_paragraph_st_def check_paragraph_default_def group_text_boxes_default_def)

end
